theory Spec2Isabelle
  imports Main
begin

section \<open>The gRPC server runner of ifrit (grpc_server/server.go)\<close>

text \<open>
  The package has two functions: \<open>NewGRPCServer\<close>, which checks by reflection that a
  registrar function and a handler fit together and builds a \<open>grpcServerRunner\<close>, and
  the method \<open>Run\<close>, which listens, builds the server, registers the handler, serves in a
  goroutine, closes \<open>ready\<close> and waits in a \<open>select\<close> for a signal or the serve result.

  Panics are values of type \<open>panic\<close>; Go's \<open>error\<close> interface is \<open>error option\<close> with
  \<open>None\<close> for \<open>nil\<close>; every effect of the two functions is an \<open>event\<close> appended to a
  trace.
\<close>

subsection \<open>Values and types as package reflect shows them\<close>

text \<open>
  The subset of \<open>reflect.Kind\<close> that the development names. \<open>Func\<close> and \<open>Interface\<close>
  are the two kinds the source tests for.
\<close>

datatype kind = Bool | Int | String | Slice | Struct | Ptr | Func | Interface

text \<open>
  A \<open>reflect.Type\<close>: its name (the identity of the type), its kind, the parameter and
  result types (read only for kind \<open>Func\<close>) and its method set (for an interface type the
  methods it requires, for any other type the methods it has).
\<close>

datatype gotype =
  GoType (tname: string) (tkind: kind) (tin: "gotype list") (tout: "gotype list")
         (tmethods: "string list")

text \<open>A non-nil dynamic value: its type and an opaque payload.\<close>

datatype govalue = GoValue (vtype: gotype) (vpayload: string)

text \<open>An \<open>interface{}\<close> argument: \<open>None\<close> is the nil interface value.\<close>

type_synonym iface = "govalue option"

datatype tls_config = TLSConfig string

datatype error = Error string

text \<open>The arguments of the five \<open>log.Panicf\<close> calls of \<open>NewGRPCServer\<close>, in source order.\<close>

datatype shape_error =
    ShouldBeFunc kind
  | ShouldHaveTwoParameters nat
  | ShouldReturnNoValue nat
  | FirstParameterMustBeServer gotype
  | SecondParameterNotImplemented gotype gotype

datatype panic =
    ReflectPanic string
  | LogPanic shape_error
  | RuntimePanic string

text \<open>\<open>credentials.NewTLS(c)\<close> and \<open>grpc.Creds(creds)\<close>.\<close>

datatype transport_credentials = NewTLS tls_config

datatype server_option = Creds transport_credentials

datatype event =
    EvLog shape_error
  | EvListen string "error option"
  | EvNewServer "server_option list"
  | EvRegister iface
  | EvServeStart
  | EvReady
  | EvWaitBegin
  | EvRecvSignal
  | EvRecvErr "error option"
  | EvGracefulStop
  | EvReturn "error option"
  | EvSignal
  | EvServeReturned "error option"

text \<open>Events that touch the network: binding, serving, stopping.\<close>

fun is_network :: "event \<Rightarrow> bool" where
  "is_network (EvListen a r) = True"
| "is_network EvServeStart = True"
| "is_network EvGracefulStop = True"
| "is_network e = False"

text \<open>
  \<open>reflect.ValueOf(x).Type()\<close>: \<open>ValueOf(nil)\<close> is the zero \<open>Value\<close>, and \<open>Type\<close> panics
  on it.
\<close>

definition Value_Type :: "iface \<Rightarrow> panic + gotype" where
  "Value_Type x =
     (case x of
        None \<Rightarrow> Inl (ReflectPanic ''reflect: call of reflect.Value.Type on zero Value'')
      | Some v \<Rightarrow> Inr (vtype v))"

definition Kind :: "gotype \<Rightarrow> kind" where
  "Kind t = tkind t"

definition NumIn :: "gotype \<Rightarrow> panic + nat" where
  "NumIn t =
     (if tkind t \<noteq> Func then Inl (ReflectPanic ''reflect: NumIn of non-func type'')
      else Inr (length (tin t)))"

definition NumOut :: "gotype \<Rightarrow> panic + nat" where
  "NumOut t =
     (if tkind t \<noteq> Func then Inl (ReflectPanic ''reflect: NumOut of non-func type'')
      else Inr (length (tout t)))"

definition In :: "gotype \<Rightarrow> nat \<Rightarrow> panic + gotype" where
  "In t i =
     (if tkind t \<noteq> Func then Inl (ReflectPanic ''reflect: In of non-func type'')
      else if i < length (tin t) then Inr (tin t ! i)
      else Inl (RuntimePanic ''index out of range''))"

text \<open>
  \<open>t.Implements(u)\<close>: panics unless \<open>u\<close> is an interface type; otherwise every method
  that \<open>u\<close> requires is in the method set of \<open>t\<close>.
\<close>

definition Implements :: "gotype \<Rightarrow> gotype \<Rightarrow> panic + bool" where
  "Implements t u =
     (if tkind u \<noteq> Interface
      then Inl (ReflectPanic ''reflect: non-interface type passed to Type.Implements'')
      else Inr (list_all (\<lambda>m. m \<in> set (tmethods t)) (tmethods u)))"

text \<open>\<open>reflect.TypeOf((*grpc.Server)(nil))\<close>.\<close>

definition grpc_Server_ptr :: gotype where
  "grpc_Server_ptr =
     GoType ''*grpc.Server'' Ptr [] []
       [''GetServiceInfo'', ''GracefulStop'', ''RegisterService'', ''Serve'', ''Stop'']"

subsection \<open>The runner and its constructor\<close>

record grpcServerRunner =
  listenAddress :: string
  handler :: iface
  serverRegistrar :: iface
  tlsConfig :: "tls_config option"

text \<open>\<open>log.Panicf\<close> prints the message to the logger and then panics with it.\<close>

definition log_Panicf :: "shape_error \<Rightarrow> event list \<times> (panic + 'a)" where
  "log_Panicf e = ([EvLog e], Inl (LogPanic e))"

text \<open>
  \<open>NewGRPCServer\<close>, statement by statement. The result is the list of events the call
  emits and either the panic that ends it or the runner it returns.
\<close>

definition NewGRPCServer ::
  "string \<Rightarrow> tls_config option \<Rightarrow> iface \<Rightarrow> iface \<Rightarrow> event list \<times> (panic + grpcServerRunner)"
where
  "NewGRPCServer la tc h sr =
     (case Value_Type sr of
        Inl p \<Rightarrow> ([], Inl p)
      | Inr registrarType \<Rightarrow>
     (case Value_Type h of
        Inl p \<Rightarrow> ([], Inl p)
      | Inr handlerType \<Rightarrow>
     if Kind registrarType \<noteq> Func then log_Panicf (ShouldBeFunc (Kind registrarType))
     else
     (case NumIn registrarType of
        Inl p \<Rightarrow> ([], Inl p)
      | Inr n \<Rightarrow>
     if n \<noteq> 2 then log_Panicf (ShouldHaveTwoParameters n)
     else
     (case NumOut registrarType of
        Inl p \<Rightarrow> ([], Inl p)
      | Inr m \<Rightarrow>
     if m \<noteq> 0 then log_Panicf (ShouldReturnNoValue m)
     else
     (case In registrarType 0 of
        Inl p \<Rightarrow> ([], Inl p)
      | Inr t0 \<Rightarrow>
     if grpc_Server_ptr \<noteq> t0 then log_Panicf (FirstParameterMustBeServer t0)
     else
     (case In registrarType 1 of
        Inl p \<Rightarrow> ([], Inl p)
      | Inr t1 \<Rightarrow>
     (case Implements handlerType t1 of
        Inl p \<Rightarrow> ([], Inl p)
      | Inr ok \<Rightarrow>
     if \<not> ok then log_Panicf (SecondParameterNotImplemented t1 handlerType)
     else
       ([], Inr \<lparr>listenAddress = la, handler = h, serverRegistrar = sr,
                 tlsConfig = tc\<rparr>))))))))"

text \<open>
  The four construction preconditions, written from the specification's words and not
  from the code: the registrar is a function value; it has exactly two parameters and no
  result; its first parameter's type is the server instance type; the handler implements
  the interface that the second parameter requires. A nil registrar is not a function
  value. A nil handler has no type and implements nothing, and a second parameter that is
  not of an interface type requires no interface that a handler could implement: in both
  cases the fourth precondition does not hold.
\<close>

definition registrar_is_function :: "iface \<Rightarrow> bool" where
  "registrar_is_function sr = (case sr of None \<Rightarrow> False | Some v \<Rightarrow> tkind (vtype v) = Func)"

definition registrar_two_in_no_out :: "iface \<Rightarrow> bool" where
  "registrar_two_in_no_out sr =
     (case sr of None \<Rightarrow> False
      | Some v \<Rightarrow> length (tin (vtype v)) = 2 \<and> length (tout (vtype v)) = 0)"

definition registrar_first_is_server :: "iface \<Rightarrow> bool" where
  "registrar_first_is_server sr =
     (case sr of None \<Rightarrow> False
      | Some v \<Rightarrow> (case tin (vtype v) of [] \<Rightarrow> False | t0 # ts \<Rightarrow> t0 = grpc_Server_ptr))"

definition handler_implements_second :: "iface \<Rightarrow> iface \<Rightarrow> bool" where
  "handler_implements_second h sr =
     (case sr of None \<Rightarrow> False
      | Some v \<Rightarrow>
        (case h of None \<Rightarrow> False
         | Some hv \<Rightarrow>
           (case tin (vtype v) of
              t0 # t1 # ts \<Rightarrow>
                tkind t1 = Interface \<and> set (tmethods t1) \<subseteq> set (tmethods (vtype hv))
            | _ \<Rightarrow> False)))"

definition construction_preconditions :: "iface \<Rightarrow> iface \<Rightarrow> bool" where
  "construction_preconditions h sr \<longleftrightarrow>
     registrar_is_function sr \<and> registrar_two_in_no_out sr \<and>
     registrar_first_is_server sr \<and> handler_implements_second h sr"

subsection \<open>Run as a machine of interleaved steps\<close>

text \<open>
  \<open>Run\<close> executes on the caller's goroutine while \<open>server.Serve\<close> runs on a second one
  and signals are delivered from outside. The model is a deterministic step function over
  labelled actions; a schedule (a list of actions) is one interleaving. The world outside
  the package is a parameter: what \<open>net.Listen\<close> answers for an address, and whether the
  reflective call of the registrar panics.
\<close>

record env =
  net_Listen :: "string \<Rightarrow> error option"
  registrar_Call :: "panic option"

text \<open>
  Program points of \<open>Run\<close>: before \<open>net.Listen\<close> (line 76), before \<open>grpc.NewServer\<close>
  (81-85), before the registrar call (86-87), before the \<open>go\<close> statement (89-92), before
  \<open>close(ready)\<close> (94), before the \<open>select\<close> (96), blocked inside the \<open>select\<close>,
  before \<open>GracefulStop\<close> (103), before \<open>return err\<close> (104), returned, panicked.
\<close>

datatype pc =
    PListen | PNewServer | PCall | PGo | PCloseReady | PSelect | PParked
  | PGracefulStop | PReturn | PDone "error option" | PPanicked panic

text \<open>
  The goroutine of line 90: not started, inside \<open>server.Serve\<close>, blocked in the send on
  the unbuffered \<open>errCh\<close> with the value \<open>Serve\<close> returned, or past the send.
\<close>

datatype serve_pc = NotStarted | Serving | Sending "error option" | Sent

record state =
  self :: grpcServerRunner
  pc :: pc
  err :: "error option"
  serve :: serve_pc
  signals :: nat
  ready_closed :: bool
  trace :: "event list"

datatype select_case = CaseSignal | CaseErr

text \<open>
  \<open>Step\<close> is the next statement of \<open>Run\<close> other than the \<open>select\<close> (a call into the
  gRPC library, \<open>GracefulStop\<close> included, is taken to return); \<open>Select c\<close> enters the
  \<open>select\<close>, \<open>c\<close> being the case the runtime picks when it has a choice; \<open>Signal\<close>
  is a value arriving on \<open>signals\<close>; \<open>ServeReturn e\<close> is \<open>server.Serve\<close> returning \<open>e\<close>
  on the background goroutine.
\<close>

datatype action = Step | Select select_case | Signal | ServeReturn "error option"

definition emit :: "event \<Rightarrow> state \<Rightarrow> state" where
  "emit ev s = s\<lparr>trace := trace s @ [ev]\<rparr>"

definition server_opts :: "grpcServerRunner \<Rightarrow> server_option list" where
  "server_opts d = (case tlsConfig d of None \<Rightarrow> [] | Some c \<Rightarrow> [] @ [Creds (NewTLS c)])"

text \<open>The receive of line 97 and the receive with assignment of line 99.\<close>

definition recv_signal :: "state \<Rightarrow> state" where
  "recv_signal s = (emit EvRecvSignal s)\<lparr>pc := PGracefulStop\<rparr>"

definition recv_err :: "error option \<Rightarrow> state \<Rightarrow> state" where
  "recv_err e s = (emit (EvRecvErr e) s)\<lparr>err := e, serve := Sent, pc := PGracefulStop\<rparr>"

definition run_step :: "env \<Rightarrow> state \<Rightarrow> state option" where
  "run_step w s =
     (case pc s of
        PListen \<Rightarrow>
          (case net_Listen w (listenAddress (self s)) of
             Some e \<Rightarrow>
               Some ((emit (EvReturn (Some e))
                        (emit (EvListen (listenAddress (self s)) (Some e)) s))
                     \<lparr>err := Some e, pc := PDone (Some e)\<rparr>)
           | None \<Rightarrow>
               Some ((emit (EvListen (listenAddress (self s)) None) s)\<lparr>pc := PNewServer\<rparr>))
      | PNewServer \<Rightarrow> Some ((emit (EvNewServer (server_opts (self s))) s)\<lparr>pc := PCall\<rparr>)
      | PCall \<Rightarrow>
          (case serverRegistrar (self s) of
             None \<Rightarrow>
               Some (s\<lparr>pc := PPanicked
                          (ReflectPanic ''reflect: call of reflect.Value.Call on zero Value'')\<rparr>)
           | Some f \<Rightarrow>
               (case handler (self s) of
                  None \<Rightarrow>
                    Some (s\<lparr>pc := PPanicked
                               (ReflectPanic ''reflect: Call using zero Value argument'')\<rparr>)
                | Some h \<Rightarrow>
                    (case registrar_Call w of
                       Some p \<Rightarrow>
                         Some ((emit (EvRegister (handler (self s))) s)\<lparr>pc := PPanicked p\<rparr>)
                     | None \<Rightarrow>
                         Some ((emit (EvRegister (handler (self s))) s)\<lparr>pc := PGo\<rparr>))))
      | PGo \<Rightarrow> Some ((emit EvServeStart s)\<lparr>serve := Serving, pc := PCloseReady\<rparr>)
      | PCloseReady \<Rightarrow>
          (if ready_closed s
           then Some (s\<lparr>pc := PPanicked (RuntimePanic ''close of closed channel'')\<rparr>)
           else Some ((emit EvReady s)\<lparr>ready_closed := True, pc := PSelect\<rparr>))
      | PGracefulStop \<Rightarrow> Some ((emit EvGracefulStop s)\<lparr>pc := PReturn\<rparr>)
      | PReturn \<Rightarrow> Some ((emit (EvReturn (err s)) s)\<lparr>pc := PDone (err s)\<rparr>)
      | _ \<Rightarrow> None)"

text \<open>
  Entering the \<open>select\<close>. A case can proceed when a signal is pending, respectively when
  the goroutine is blocked in its send. With no case able to proceed \<open>Run\<close> blocks; with
  one, that case runs; with both, the picked one runs. A picked case that cannot proceed
  is not a step.
\<close>

definition select_step :: "select_case \<Rightarrow> state \<Rightarrow> state option" where
  "select_step c s =
     (if pc s \<noteq> PSelect then None
      else
        (case serve s of
           Sending e \<Rightarrow>
             (case c of
                CaseErr \<Rightarrow> Some (recv_err e (emit EvWaitBegin s))
              | CaseSignal \<Rightarrow>
                  (if signals s = 0 then None
                   else Some (recv_signal ((emit EvWaitBegin s)\<lparr>signals := signals s - 1\<rparr>))))
         | _ \<Rightarrow>
             (if signals s = 0 then Some ((emit EvWaitBegin s)\<lparr>pc := PParked\<rparr>)
              else
                (case c of
                   CaseSignal \<Rightarrow>
                     Some (recv_signal ((emit EvWaitBegin s)\<lparr>signals := signals s - 1\<rparr>))
                 | CaseErr \<Rightarrow> None))))"

text \<open>
  A value arriving on \<open>signals\<close> is handed to \<open>Run\<close> when \<open>Run\<close> is blocked in the
  \<open>select\<close>, and stays pending otherwise.
\<close>

definition signal_step :: "state \<Rightarrow> state option" where
  "signal_step s =
     (if pc s = PParked then Some (recv_signal (emit EvSignal s))
      else Some ((emit EvSignal s)\<lparr>signals := signals s + 1\<rparr>))"

text \<open>
  \<open>server.Serve\<close> returning \<open>e\<close>: the goroutine sends \<open>e\<close> on \<open>errCh\<close>, which line 89
  makes with \<open>make(chan error)\<close>, without a buffer; the send completes at once when \<open>Run\<close>
  is blocked in the \<open>select\<close>, and blocks otherwise until \<open>Run\<close> receives.
\<close>

definition serve_return :: "error option \<Rightarrow> state \<Rightarrow> state option" where
  "serve_return e s =
     (if serve s \<noteq> Serving then None
      else if pc s = PParked then Some (recv_err e (emit (EvServeReturned e) s))
      else Some ((emit (EvServeReturned e) s)\<lparr>serve := Sending e\<rparr>))"

definition step :: "env \<Rightarrow> action \<Rightarrow> state \<Rightarrow> state option" where
  "step w a s =
     (case a of
        Step \<Rightarrow> run_step w s
      | Select c \<Rightarrow> select_step c s
      | Signal \<Rightarrow> signal_step s
      | ServeReturn e \<Rightarrow> serve_return e s)"

fun exec :: "env \<Rightarrow> action list \<Rightarrow> state \<Rightarrow> state option" where
  "exec w [] s = Some s"
| "exec w (a # as) s = (case step w a s of None \<Rightarrow> None | Some s' \<Rightarrow> exec w as s')"

text \<open>The state in which \<open>Run\<close> is called; \<open>rc\<close> says whether \<open>ready\<close> is closed already.\<close>

definition init :: "grpcServerRunner \<Rightarrow> bool \<Rightarrow> state" where
  "init d rc =
     \<lparr>self = d, pc = PListen, err = None, serve = NotStarted, signals = 0,
      ready_closed = rc, trace = []\<rparr>"

text \<open>The events that \<open>Run\<close>'s own goroutine emits, as opposed to arrivals from outside.\<close>

fun is_run_event :: "event \<Rightarrow> bool" where
  "is_run_event EvSignal = False"
| "is_run_event (EvServeReturned e) = False"
| "is_run_event (EvLog m) = False"
| "is_run_event ev = True"

definition run_events :: "event list \<Rightarrow> event list" where
  "run_events tr = filter is_run_event tr"

fun is_recv :: "event \<Rightarrow> bool" where
  "is_recv EvRecvSignal = True"
| "is_recv (EvRecvErr e) = True"
| "is_recv ev = False"

fun is_serve_returned :: "event \<Rightarrow> bool" where
  "is_serve_returned (EvServeReturned e) = True"
| "is_serve_returned ev = False"


text \<open>The events of \<open>Run\<close> up to and including the entry into the \<open>select\<close>.\<close>

definition upto_wait :: "grpcServerRunner \<Rightarrow> event list" where
  "upto_wait d =
     [EvListen (listenAddress d) None, EvNewServer (server_opts d), EvRegister (handler d),
      EvServeStart, EvReady, EvWaitBegin]"

subsection \<open>What holds at each program point\<close>

text \<open>
  How the \<open>select\<close> ended: with the receive from \<open>signals\<close>, \<open>err\<close> still nil, or with
  the receive from \<open>errCh\<close>, \<open>err\<close> holding the received value.
\<close>

definition tail_ok :: "state \<Rightarrow> event \<Rightarrow> bool" where
  "tail_ok s x \<longleftrightarrow>
     (x = EvRecvSignal \<and> err s = None \<and> serve s \<noteq> Sent \<and> serve s \<noteq> NotStarted) \<or>
     (x = EvRecvErr (err s) \<and> serve s = Sent)"

text \<open>\<open>server.Serve\<close> returns at most once, and what it returned is what is being sent.\<close>

definition serve_inv :: "state \<Rightarrow> bool" where
  "serve_inv s \<longleftrightarrow>
     filter is_serve_returned (trace s) =
       (case serve s of
          NotStarted \<Rightarrow> []
        | Serving \<Rightarrow> []
        | Sending e \<Rightarrow> [EvServeReturned e]
        | Sent \<Rightarrow> [EvServeReturned (err s)])"

text \<open>The events \<open>Run\<close> has emitted, as determined by its program point.\<close>

definition pc_inv :: "env \<Rightarrow> grpcServerRunner \<Rightarrow> state \<Rightarrow> bool" where
  "pc_inv w d s \<longleftrightarrow>
     (case pc s of
        PListen \<Rightarrow> run_events (trace s) = [] \<and> err s = None \<and> serve s = NotStarted
      | PNewServer \<Rightarrow>
          run_events (trace s) = take 1 (upto_wait d) \<and> err s = None \<and> serve s = NotStarted
      | PCall \<Rightarrow>
          run_events (trace s) = take 2 (upto_wait d) \<and> err s = None \<and> serve s = NotStarted
      | PGo \<Rightarrow>
          run_events (trace s) = take 3 (upto_wait d) \<and> err s = None \<and> serve s = NotStarted
      | PCloseReady \<Rightarrow>
          run_events (trace s) = take 4 (upto_wait d) \<and> err s = None \<and>
          serve s \<noteq> NotStarted \<and> serve s \<noteq> Sent
      | PSelect \<Rightarrow>
          run_events (trace s) = take 5 (upto_wait d) \<and> err s = None \<and>
          serve s \<noteq> NotStarted \<and> serve s \<noteq> Sent
      | PParked \<Rightarrow>
          run_events (trace s) = upto_wait d \<and> err s = None \<and> serve s = Serving \<and>
          signals s = 0
      | PGracefulStop \<Rightarrow> (\<exists>x. run_events (trace s) = upto_wait d @ [x] \<and> tail_ok s x)
      | PReturn \<Rightarrow>
          (\<exists>x. run_events (trace s) = upto_wait d @ [x, EvGracefulStop] \<and> tail_ok s x)
      | PDone r \<Rightarrow>
          (\<exists>e. r = Some e \<and> net_Listen w (listenAddress d) = Some e \<and> serve s = NotStarted \<and>
               run_events (trace s) = [EvListen (listenAddress d) (Some e), EvReturn (Some e)]) \<or>
          (r = err s \<and>
           (\<exists>x. run_events (trace s) = upto_wait d @ [x, EvGracefulStop, EvReturn r] \<and>
                tail_ok s x))
      | PPanicked p \<Rightarrow>
          (run_events (trace s) = take 2 (upto_wait d) \<or>
           run_events (trace s) = take 3 (upto_wait d) \<or>
           run_events (trace s) = take 4 (upto_wait d)) \<and> serve s \<noteq> Sent)"

definition run_inv :: "env \<Rightarrow> grpcServerRunner \<Rightarrow> state \<Rightarrow> bool" where
  "run_inv w d s \<longleftrightarrow>
     self s = d \<and> serve_inv s \<and> pc_inv w d s \<and>
     (EvListen (listenAddress d) None \<in> set (trace s) \<longrightarrow>
        net_Listen w (listenAddress d) = None)"

subsection \<open>Observations on a run\<close>

definition final_pc :: "env \<Rightarrow> action list \<Rightarrow> state \<Rightarrow> pc option" where
  "final_pc w sched s = map_option pc (exec w sched s)"

definition final_trace :: "env \<Rightarrow> action list \<Rightarrow> state \<Rightarrow> event list option" where
  "final_trace w sched s = map_option trace (exec w sched s)"

fun is_serve_error :: "event \<Rightarrow> bool" where
  "is_serve_error (EvServeReturned (Some e)) = True"
| "is_serve_error ev = False"


text \<open>\<open>server.Serve\<close> returned the error \<open>e\<close> before any value arrived on \<open>signals\<close>.\<close>

definition serve_error_before_signal :: "error \<Rightarrow> event list \<Rightarrow> bool" where
  "serve_error_before_signal e tr \<longleftrightarrow>
     EvServeReturned (Some e) \<in> set (takeWhile (\<lambda>x. x \<noteq> EvSignal) tr)"

text \<open>A value arrived on \<open>signals\<close> before \<open>server.Serve\<close> returned any error.\<close>

definition signal_before_serve_error :: "event list \<Rightarrow> bool" where
  "signal_before_serve_error tr \<longleftrightarrow>
     EvSignal \<in> set (takeWhile (\<lambda>x. \<not> is_serve_error x) tr)"

definition bind_succeeded :: "grpcServerRunner \<Rightarrow> event list \<Rightarrow> bool" where
  "bind_succeeded d tr \<longleftrightarrow> EvListen (listenAddress d) None \<in> set tr"

subsection \<open>Two worlds and five schedules\<close>

text \<open>A world where every address is free, and one where the address is taken.\<close>

definition free_world :: env where
  "free_world = \<lparr>net_Listen = (\<lambda>a. None), registrar_Call = None\<rparr>"

definition busy_world :: env where
  "busy_world =
     \<lparr>net_Listen = (\<lambda>a. Some (Error ''bind: address already in use'')),
      registrar_Call = None\<rparr>"

definition closed_conn :: error where
  "closed_conn = Error ''use of closed network connection''"

text \<open>
  \<open>Serve\<close> fails right after the \<open>go\<close> statement, then a signal arrives, both before
  \<open>Run\<close> reaches the \<open>select\<close>, which takes the signal.
\<close>

definition error_then_signal :: "action list" where
  "error_then_signal =
     [Step, Step, Step, Step, ServeReturn (Some closed_conn), Signal, Step,
      Select CaseSignal, Step, Step]"

text \<open>
  A signal arrives right after the \<open>go\<close> statement, then \<open>Serve\<close> fails, both before
  \<open>Run\<close> reaches the \<open>select\<close>, which takes the serve result.
\<close>

definition signal_then_error :: "action list" where
  "signal_then_error =
     [Step, Step, Step, Step, Signal, ServeReturn (Some closed_conn), Step,
      Select CaseErr, Step, Step]"


text \<open>A run that ends by the signal with nothing else happening.\<close>

definition clean_stop :: "action list" where
  "clean_stop = [Step, Step, Step, Step, Step, Select CaseSignal, Signal, Step, Step]"

text \<open>A run whose \<open>Serve\<close> fails while \<open>Run\<close> is blocked in the \<open>select\<close>.\<close>

definition serve_fails :: "action list" where
  "serve_fails =
     [Step, Step, Step, Step, Step, Select CaseSignal, ServeReturn (Some closed_conn),
      Step, Step]"

subsection \<open>A concrete service\<close>

text \<open>
  A service as protoc generates it: the interface \<open>EchoServer\<close> with one method, the
  registrar \<open>RegisterEchoServer\<close> of type \<open>func(*grpc.Server, EchoServer)\<close>, and a handler
  of type \<open>*echoImpl\<close> that has the method.
\<close>

definition EchoServer :: gotype where
  "EchoServer = GoType ''pb.EchoServer'' Interface [] [] [''Echo'']"

definition RegisterEchoServer :: govalue where
  "RegisterEchoServer =
     GoValue (GoType ''func(*grpc.Server, pb.EchoServer)'' Func [grpc_Server_ptr, EchoServer] [] [])
       ''pb.RegisterEchoServer''"

definition echoImpl :: govalue where
  "echoImpl = GoValue (GoType ''*main.echoImpl'' Ptr [] [] [''Echo'', ''Close'']) ''&echoImpl{}''"

definition echo_runner :: grpcServerRunner where
  "echo_runner =
     \<lparr>listenAddress = ''127.0.0.1:50051'', handler = Some echoImpl,
      serverRegistrar = Some RegisterEchoServer, tlsConfig = Some (TLSConfig ''server.crt'')\<rparr>"

section \<open>Construction\<close>

lemmas reflect_defs =
  Value_Type_def Kind_def NumIn_def NumOut_def In_def Implements_def log_Panicf_def

lemmas precondition_defs =
  construction_preconditions_def registrar_is_function_def registrar_two_in_no_out_def
  registrar_first_is_server_def handler_implements_second_def

lemmas echo_defs = EchoServer_def RegisterEchoServer_def echoImpl_def echo_runner_def

lemma length_two_cases: "length xs = 2 \<Longrightarrow> \<exists>a b. xs = [a, b]"
  by (cases xs; cases "tl xs") auto

lemma echo_preconditions: "construction_preconditions (Some echoImpl) (Some RegisterEchoServer)"
  by (simp add: precondition_defs echo_defs)

text \<open>
  C1. \<open>NewGRPCServer\<close> panics if and only if one of the four construction preconditions is
  violated: the registrar is not a function value, or it does not have exactly two
  parameters and no result, or its first parameter is not \<open>*grpc.Server\<close>, or the handler
  does not implement the interface of the second parameter. When all four hold it returns
  the runner. In either case the call emits no network event.
\<close>

theorem NewGRPCServer_panics_iff_precondition_violated:
  "((\<exists>p. snd (NewGRPCServer la tc h sr) = Inl p) \<longleftrightarrow> \<not> construction_preconditions h sr) \<and>
   (construction_preconditions h sr \<longrightarrow>
      snd (NewGRPCServer la tc h sr) =
        Inr \<lparr>listenAddress = la, handler = h, serverRegistrar = sr, tlsConfig = tc\<rparr>) \<and>
   filter is_network (fst (NewGRPCServer la tc h sr)) = []"
proof (cases sr)
  case None
  then show ?thesis
    by (simp add: NewGRPCServer_def reflect_defs precondition_defs)
next
  case (Some rv)
  note sr = Some
  show ?thesis
  proof (cases h)
    case None
    then show ?thesis using sr
      by (simp add: NewGRPCServer_def reflect_defs precondition_defs)
  next
    case (Some hv)
    show ?thesis
    proof (cases "tkind (vtype rv) = Func \<and> length (tin (vtype rv)) = 2")
      case False
      then show ?thesis using sr Some
        by (auto simp add: NewGRPCServer_def reflect_defs precondition_defs)
    next
      case True
      then obtain t0 t1 where "tin (vtype rv) = [t0, t1]"
        using length_two_cases by blast
      then show ?thesis using sr Some True
        by (auto simp add: NewGRPCServer_def reflect_defs precondition_defs list_all_iff)
    qed
  qed
qed

theorem NewGRPCServer_panics_iff_precondition_violated_witness:
  "construction_preconditions (Some echoImpl) (Some RegisterEchoServer) \<and>
   snd (NewGRPCServer ''127.0.0.1:50051'' None (Some echoImpl) (Some RegisterEchoServer)) =
     Inr \<lparr>listenAddress = ''127.0.0.1:50051'', handler = Some echoImpl,
          serverRegistrar = Some RegisterEchoServer, tlsConfig = None\<rparr> \<and>
   \<not> construction_preconditions (Some echoImpl) (Some echoImpl) \<and>
   (\<exists>p. snd (NewGRPCServer ''127.0.0.1:50051'' None (Some echoImpl) (Some echoImpl)) = Inl p)"
  using NewGRPCServer_panics_iff_precondition_violated
          [of "''127.0.0.1:50051''" None "Some echoImpl" "Some RegisterEchoServer"]
        NewGRPCServer_panics_iff_precondition_violated
          [of "''127.0.0.1:50051''" None "Some echoImpl" "Some echoImpl"]
        echo_preconditions
  by (simp add: precondition_defs echoImpl_def)

text \<open>
  C10. With a nil registrar or a nil handler \<open>NewGRPCServer\<close> panics as well, and no
  network event happens; the panic is the one \<open>reflect.Value.Type\<close> raises on the zero
  \<open>Value\<close>, not one of the \<open>log.Panicf\<close> calls of the shape checks, and nothing is logged.
\<close>

theorem NewGRPCServer_nil_argument_panics_in_reflect:
  "sr = None \<or> h = None \<Longrightarrow>
     NewGRPCServer la tc h sr =
       ([], Inl (ReflectPanic ''reflect: call of reflect.Value.Type on zero Value'')) \<and>
     (\<forall>m. snd (NewGRPCServer la tc h sr) \<noteq> Inl (LogPanic m)) \<and>
     (\<forall>m. EvLog m \<notin> set (fst (NewGRPCServer la tc h sr))) \<and>
     filter is_network (fst (NewGRPCServer la tc h sr)) = []"
  by (cases sr; cases h) (auto simp add: NewGRPCServer_def reflect_defs)

theorem NewGRPCServer_nil_argument_panics_in_reflect_witness:
  "NewGRPCServer ''127.0.0.1:50051'' None None (Some RegisterEchoServer) =
     ([], Inl (ReflectPanic ''reflect: call of reflect.Value.Type on zero Value'')) \<and>
   NewGRPCServer ''127.0.0.1:50051'' None (Some echoImpl) None =
     ([], Inl (ReflectPanic ''reflect: call of reflect.Value.Type on zero Value''))"
  using NewGRPCServer_nil_argument_panics_in_reflect
          [of "Some RegisterEchoServer" None "''127.0.0.1:50051''" None]
        NewGRPCServer_nil_argument_panics_in_reflect
          [of None "Some echoImpl" "''127.0.0.1:50051''" None]
  by simp

section \<open>Run\<close>

subsection \<open>The invariant\<close>

lemmas step_defs =
  step_def run_step_def select_step_def signal_step_def serve_return_def
  recv_signal_def recv_err_def emit_def

lemmas inv_defs =
  run_inv_def serve_inv_def pc_inv_def tail_ok_def run_events_def upto_wait_def

lemma run_inv_init: "run_inv w d (init d rc)"
  by (simp add: inv_defs init_def)

lemma run_inv_run_step:
  assumes "run_inv w d s" and "run_step w s = Some s'"
  shows "run_inv w d s'"
proof (cases "pc s")
  case PListen
  with assms show ?thesis
    by (auto simp add: inv_defs run_step_def emit_def split: option.splits)
next
  case PNewServer
  with assms show ?thesis
    by (auto simp add: inv_defs run_step_def emit_def)
next
  case PCall
  with assms show ?thesis
    by (auto simp add: inv_defs run_step_def emit_def split: option.splits)
next
  case PGo
  with assms show ?thesis
    by (auto simp add: inv_defs run_step_def emit_def)
next
  case PCloseReady
  with assms show ?thesis
    by (auto simp add: inv_defs run_step_def emit_def split: if_splits serve_pc.splits)
next
  case PGracefulStop
  with assms show ?thesis
    by (auto simp add: inv_defs run_step_def emit_def split: serve_pc.splits)
next
  case PReturn
  with assms show ?thesis
    by (auto simp add: inv_defs run_step_def emit_def split: serve_pc.splits)
qed (use assms in \<open>simp_all add: run_step_def\<close>)

lemma run_inv_select_step:
  assumes "run_inv w d s" and "select_step c s = Some s'"
  shows "run_inv w d s'"
  using assms
  by (cases "pc s"; cases "serve s"; cases c)
     (auto simp add: inv_defs step_defs split: if_splits)

lemma run_inv_signal_step:
  assumes "run_inv w d s" and "signal_step s = Some s'"
  shows "run_inv w d s'"
  using assms
  by (cases "pc s"; cases "serve s")
     (auto simp add: inv_defs step_defs split: if_splits)

lemma run_inv_serve_return:
  assumes "run_inv w d s" and "serve_return e s = Some s'"
  shows "run_inv w d s'"
  using assms
  by (cases "pc s"; cases "serve s")
     (auto simp add: inv_defs step_defs split: if_splits)

lemma run_inv_step:
  assumes "run_inv w d s" and "step w a s = Some s'"
  shows "run_inv w d s'"
  using assms
  by (cases a)
     (auto simp add: step_def
           intro: run_inv_run_step run_inv_select_step run_inv_signal_step run_inv_serve_return)

lemma run_inv_exec:
  "run_inv w d s \<Longrightarrow> exec w sched s = Some s' \<Longrightarrow> run_inv w d s'"
proof (induction sched arbitrary: s)
  case Nil
  then show ?case by simp
next
  case (Cons a sched)
  then show ?case
    by (auto split: option.splits dest: run_inv_step)
qed

lemma run_inv_reachable:
  "exec w sched (init d rc) = Some s \<Longrightarrow> run_inv w d s"
  using run_inv_exec run_inv_init by blast


lemma in_run_events: "is_run_event x \<Longrightarrow> x \<in> set (run_events tr) \<longleftrightarrow> x \<in> set tr"
  by (simp add: run_events_def)

lemma count_run_events: "is_run_event x \<Longrightarrow> count_list (run_events tr) x = count_list tr x"
  by (induction tr) (auto simp add: run_events_def)

subsection \<open>Shapes of the trace\<close>

text \<open>Once the \<open>select\<close> has been entered, the events of \<open>Run\<close> have one of four shapes.\<close>

lemma reached_wait_shape:
  assumes "run_inv w d s" and "EvWaitBegin \<in> set (trace s)"
  shows "(pc s = PParked \<and> run_events (trace s) = upto_wait d) \<or>
         (\<exists>x. tail_ok s x \<and>
            ((pc s = PGracefulStop \<and> run_events (trace s) = upto_wait d @ [x]) \<or>
             (pc s = PReturn \<and> run_events (trace s) = upto_wait d @ [x, EvGracefulStop]) \<or>
             (pc s = PDone (err s) \<and>
              run_events (trace s) = upto_wait d @ [x, EvGracefulStop, EvReturn (err s)])))"
proof -
  from assms(2) have w: "EvWaitBegin \<in> set (run_events (trace s))"
    by (simp add: in_run_events)
  from assms(1) have "pc_inv w d s"
    by (simp add: run_inv_def)
  with w show ?thesis
    by (cases "pc s") (auto simp add: pc_inv_def upto_wait_def)
qed

lemma bind_failed_shape:
  assumes "run_inv w d s" and "net_Listen w (listenAddress d) = Some e"
  shows "(pc s = PListen \<and> run_events (trace s) = []) \<or>
         (pc s = PDone (Some e) \<and>
          run_events (trace s) = [EvListen (listenAddress d) (Some e), EvReturn (Some e)])"
proof -
  from assms have n: "EvListen (listenAddress d) None \<notin> set (run_events (trace s))"
    by (auto simp add: run_inv_def in_run_events)
  from assms(1) have "pc_inv w d s"
    by (simp add: run_inv_def)
  with n assms(2) show ?thesis
    by (cases "pc s") (auto simp add: pc_inv_def upto_wait_def)
qed


lemma self_step: "step w a s = Some s' \<Longrightarrow> self s' = self s"
  by (cases a)
     (auto simp add: step_defs split: pc.splits option.splits if_splits serve_pc.splits
        select_case.splits)

lemma returns_within_two_steps:
  assumes "pc s = PGracefulStop \<or> pc s = PReturn \<or> pc s = PDone (err s)"
  shows "\<exists>k\<le>2. final_pc w (replicate k Step) s = Some (PDone (err s))"
proof -
  consider "pc s = PGracefulStop" | "pc s = PReturn" | "pc s = PDone (err s)"
    using assms by blast
  then show ?thesis
  proof cases
    case 1
    then have "final_pc w (replicate 2 Step) s = Some (PDone (err s))"
      by (simp add: final_pc_def numeral_2_eq_2 step_def run_step_def emit_def)
    then show ?thesis by blast
  next
    case 2
    then have "final_pc w (replicate 1 Step) s = Some (PDone (err s))"
      by (simp add: final_pc_def step_def run_step_def emit_def)
    then show ?thesis
      by (metis one_le_numeral)
  next
    case 3
    then have "final_pc w (replicate 0 Step) s = Some (PDone (err s))"
      by (simp add: final_pc_def)
    then show ?thesis by blast
  qed
qed

lemma resolved_shape:
  assumes "run_inv w d s" and "x \<in> set (trace s)" and "is_recv x"
  shows "tail_ok s x \<and>
         ((pc s = PGracefulStop \<and> run_events (trace s) = upto_wait d @ [x]) \<or>
          (pc s = PReturn \<and> run_events (trace s) = upto_wait d @ [x, EvGracefulStop]) \<or>
          (pc s = PDone (err s) \<and>
           run_events (trace s) = upto_wait d @ [x, EvGracefulStop, EvReturn (err s)]))"
proof -
  have r: "is_run_event x"
    using assms(3) by (cases x) auto
  with assms(2) have m: "x \<in> set (run_events (trace s))"
    by (simp add: in_run_events)
  from assms(1) have "pc_inv w d s"
    by (simp add: run_inv_def)
  with m assms(3) show ?thesis
    by (cases "pc s") (auto simp add: pc_inv_def upto_wait_def tail_ok_def)
qed


lemma received_err_shape:
  assumes "run_inv w d s" and "EvRecvErr e \<in> set (trace s)"
  shows "err s = e \<and> serve s = Sent \<and>
         ((pc s = PGracefulStop \<and> run_events (trace s) = upto_wait d @ [EvRecvErr e]) \<or>
          (pc s = PReturn \<and> run_events (trace s) = upto_wait d @ [EvRecvErr e, EvGracefulStop]) \<or>
          (pc s = PDone e \<and>
           run_events (trace s) = upto_wait d @ [EvRecvErr e, EvGracefulStop, EvReturn e]))"
  using resolved_shape [OF assms, simplified] by (auto simp add: tail_ok_def)

lemma received_signal_shape:
  assumes "run_inv w d s" and "EvRecvSignal \<in> set (trace s)"
  shows "err s = None \<and> serve s \<noteq> Sent \<and>
         ((pc s = PGracefulStop \<and> run_events (trace s) = upto_wait d @ [EvRecvSignal]) \<or>
          (pc s = PReturn \<and> run_events (trace s) = upto_wait d @ [EvRecvSignal, EvGracefulStop]) \<or>
          (pc s = PDone None \<and>
           run_events (trace s) = upto_wait d @ [EvRecvSignal, EvGracefulStop, EvReturn None]))"
  using resolved_shape [OF assms, simplified] by (auto simp add: tail_ok_def)

lemma parked_serving: "run_inv w d s \<Longrightarrow> pc s = PParked \<Longrightarrow> serve s = Serving"
  by (simp add: run_inv_def pc_inv_def)

subsection \<open>The serve error wins\<close>

text \<open>
  C2, as amended. In every run of \<open>Run\<close> whose \<open>select\<close> receives the error \<open>e\<close> that
  \<open>server.Serve\<close> returned, \<open>Run\<close> returns \<open>e\<close> within two more statements, the first being
  \<open>GracefulStop\<close>, and it has listened and started serving exactly once (nothing is
  retried). The \<open>select\<close> does receive the error when it arrives while \<open>Run\<close> is blocked in
  the \<open>select\<close>, and when it is pending and no signal is pending as the \<open>select\<close> is
  entered.
\<close>

theorem Run_returns_received_serve_error:
  assumes "exec w sched (init d rc) = Some s"
  shows "(EvRecvErr (Some e) \<in> set (trace s) \<longrightarrow>
            (\<exists>k\<le>2. final_pc w (replicate k Step) s = Some (PDone (Some e))) \<and>
            (\<forall>r. pc s = PDone r \<longrightarrow>
               r = Some e \<and>
               run_events (trace s) =
                 upto_wait d @ [EvRecvErr (Some e), EvGracefulStop, EvReturn (Some e)]) \<and>
            count_list (trace s) (EvListen (listenAddress d) None) = 1 \<and>
            count_list (trace s) EvServeStart = 1) \<and>
         (pc s = PParked \<longrightarrow>
            (\<exists>s'. step w (ServeReturn (Some e)) s = Some s' \<and>
                  EvRecvErr (Some e) \<in> set (trace s'))) \<and>
         (pc s = PSelect \<and> serve s = Sending (Some e) \<and> signals s = 0 \<longrightarrow>
            step w (Select CaseSignal) s = None \<and>
            (\<exists>s'. step w (Select CaseErr) s = Some s' \<and>
                  EvRecvErr (Some e) \<in> set (trace s')))"
proof -
  have inv: "run_inv w d s"
    using assms by (rule run_inv_reachable)
  have a: "(\<exists>k\<le>2. final_pc w (replicate k Step) s = Some (PDone (Some e))) \<and>
            (\<forall>r. pc s = PDone r \<longrightarrow>
               r = Some e \<and>
               run_events (trace s) =
                 upto_wait d @ [EvRecvErr (Some e), EvGracefulStop, EvReturn (Some e)]) \<and>
            count_list (trace s) (EvListen (listenAddress d) None) = 1 \<and>
            count_list (trace s) EvServeStart = 1"
    if r: "EvRecvErr (Some e) \<in> set (trace s)"
  proof -
    note sh = received_err_shape [OF inv r]
    have ret: "\<exists>k\<le>2. final_pc w (replicate k Step) s = Some (PDone (Some e))"
      using returns_within_two_steps [of s w] sh by auto
    have fin: "\<forall>r. pc s = PDone r \<longrightarrow>
              r = Some e \<and>
              run_events (trace s) =
                upto_wait d @ [EvRecvErr (Some e), EvGracefulStop, EvReturn (Some e)]"
      using sh by auto
    have "count_list (run_events (trace s)) (EvListen (listenAddress d) None) = 1"
      using sh by (auto simp add: upto_wait_def)
    then have c1: "count_list (trace s) (EvListen (listenAddress d) None) = 1"
      by (simp add: count_run_events)
    have "count_list (run_events (trace s)) EvServeStart = 1"
      using sh by (auto simp add: upto_wait_def)
    then have c2: "count_list (trace s) EvServeStart = 1"
      by (simp add: count_run_events)
    from ret fin c1 c2 show ?thesis by blast
  qed
  have b: "\<exists>s'. step w (ServeReturn (Some e)) s = Some s' \<and> EvRecvErr (Some e) \<in> set (trace s')"
    if "pc s = PParked"
    using that parked_serving [OF inv that] by (simp add: step_defs)
  have c: "step w (Select CaseSignal) s = None \<and>
           (\<exists>s'. step w (Select CaseErr) s = Some s' \<and> EvRecvErr (Some e) \<in> set (trace s'))"
    if "pc s = PSelect \<and> serve s = Sending (Some e) \<and> signals s = 0"
    using that by (simp add: step_defs)
  from a b c show ?thesis by blast
qed

theorem Run_returns_received_serve_error_witness:
  "(\<exists>s. exec free_world serve_fails (init echo_runner False) = Some s \<and>
        EvRecvErr (Some closed_conn) \<in> set (trace s) \<and> pc s = PDone (Some closed_conn) \<and>
        count_list (trace s) EvServeStart = 1) \<and>
   (\<exists>s. exec free_world (take 6 serve_fails) (init echo_runner False) = Some s \<and>
        pc s = PParked \<and>
        (\<exists>s'. step free_world (ServeReturn (Some closed_conn)) s = Some s' \<and>
              EvRecvErr (Some closed_conn) \<in> set (trace s'))) \<and>
   (\<exists>s. exec free_world (take 5 error_then_signal @ [Step]) (init echo_runner False) = Some s \<and>
        pc s = PSelect \<and> serve s = Sending (Some closed_conn) \<and> signals s = 0 \<and>
        step free_world (Select CaseSignal) s = None)"
proof -
  obtain s1 where s1: "exec free_world serve_fails (init echo_runner False) = Some s1"
    and r1: "EvRecvErr (Some closed_conn) \<in> set (trace s1)" "pc s1 = PDone (Some closed_conn)"
    by (simp add: serve_fails_def free_world_def init_def step_defs echo_runner_def)
  obtain s2 where s2: "exec free_world (take 6 serve_fails) (init echo_runner False) = Some s2"
    and r2: "pc s2 = PParked"
    by (simp add: serve_fails_def free_world_def init_def step_defs echo_runner_def)
  obtain s3 where
    s3: "exec free_world (take 5 error_then_signal @ [Step]) (init echo_runner False) = Some s3"
    and r3: "pc s3 = PSelect" "serve s3 = Sending (Some closed_conn)" "signals s3 = 0"
    by (simp add: error_then_signal_def free_world_def init_def step_defs echo_runner_def)
  show ?thesis
    using Run_returns_received_serve_error [OF s1, of closed_conn]
          Run_returns_received_serve_error [OF s2, of closed_conn]
          Run_returns_received_serve_error [OF s3, of closed_conn]
          s1 s2 s3 r1 r2 r3
    by auto
qed

text \<open>
  C2 as stated fails: \<open>Serve\<close> returns an error, a signal arrives after it, both before
  \<open>Run\<close> enters the \<open>select\<close>; the \<open>select\<close> may take the signal, and \<open>Run\<close> returns nil.
\<close>

theorem error_then_signal_returns_nil:
  "final_pc free_world error_then_signal (init echo_runner False) = Some (PDone None) \<and>
   map_option (serve_error_before_signal closed_conn)
     (final_trace free_world error_then_signal (init echo_runner False)) = Some True"
  by (simp add: final_pc_def final_trace_def error_then_signal_def free_world_def init_def
        step_defs serve_error_before_signal_def echo_runner_def)

subsection \<open>The stop signal wins\<close>

text \<open>
  C3, as amended. In every run of \<open>Run\<close> whose \<open>select\<close> receives the value from
  \<open>signals\<close>, the bind succeeded and \<open>Run\<close> returns nil within two more statements, the
  first being \<open>GracefulStop\<close>. The \<open>select\<close> does receive the signal when it arrives while
  \<open>Run\<close> is blocked in the \<open>select\<close>, and when it is pending and \<open>Serve\<close> has not returned
  as the \<open>select\<close> is entered.
\<close>

theorem Run_returns_nil_on_received_signal:
  assumes "exec w sched (init d rc) = Some s"
  shows "(EvRecvSignal \<in> set (trace s) \<longrightarrow>
            bind_succeeded d (trace s) \<and>
            (\<exists>k\<le>2. final_pc w (replicate k Step) s = Some (PDone None)) \<and>
            (\<forall>r. pc s = PDone r \<longrightarrow>
               r = None \<and>
               run_events (trace s) =
                 upto_wait d @ [EvRecvSignal, EvGracefulStop, EvReturn None])) \<and>
         (pc s = PParked \<longrightarrow>
            (\<exists>s'. step w Signal s = Some s' \<and> EvRecvSignal \<in> set (trace s'))) \<and>
         (pc s = PSelect \<and> 0 < signals s \<and> serve s = Serving \<longrightarrow>
            step w (Select CaseErr) s = None \<and>
            (\<exists>s'. step w (Select CaseSignal) s = Some s' \<and> EvRecvSignal \<in> set (trace s')))"
proof -
  have inv: "run_inv w d s"
    using assms by (rule run_inv_reachable)
  have a: "bind_succeeded d (trace s) \<and>
            (\<exists>k\<le>2. final_pc w (replicate k Step) s = Some (PDone None)) \<and>
            (\<forall>r. pc s = PDone r \<longrightarrow>
               r = None \<and>
               run_events (trace s) =
                 upto_wait d @ [EvRecvSignal, EvGracefulStop, EvReturn None])"
    if r: "EvRecvSignal \<in> set (trace s)"
  proof -
    note sh = received_signal_shape [OF inv r]
    have ret: "\<exists>k\<le>2. final_pc w (replicate k Step) s = Some (PDone None)"
      using returns_within_two_steps [of s w] sh by auto
    have fin: "\<forall>r. pc s = PDone r \<longrightarrow>
               r = None \<and>
               run_events (trace s) =
                 upto_wait d @ [EvRecvSignal, EvGracefulStop, EvReturn None]"
      using sh by auto
    have "EvListen (listenAddress d) None \<in> set (run_events (trace s))"
      using sh by (auto simp add: upto_wait_def)
    then have "bind_succeeded d (trace s)"
      by (simp add: in_run_events bind_succeeded_def)
    with ret fin show ?thesis by blast
  qed
  have b: "\<exists>s'. step w Signal s = Some s' \<and> EvRecvSignal \<in> set (trace s')"
    if "pc s = PParked"
    using that by (simp add: step_defs)
  have c: "step w (Select CaseErr) s = None \<and>
           (\<exists>s'. step w (Select CaseSignal) s = Some s' \<and> EvRecvSignal \<in> set (trace s'))"
    if "pc s = PSelect \<and> 0 < signals s \<and> serve s = Serving"
    using that by (simp add: step_defs)
  from a b c show ?thesis by blast
qed

theorem Run_returns_nil_on_received_signal_witness:
  "(\<exists>s. exec free_world clean_stop (init echo_runner False) = Some s \<and>
        EvRecvSignal \<in> set (trace s) \<and> pc s = PDone None) \<and>
   (\<exists>s. exec free_world (take 6 clean_stop) (init echo_runner False) = Some s \<and>
        pc s = PParked \<and>
        (\<exists>s'. step free_world Signal s = Some s' \<and> EvRecvSignal \<in> set (trace s'))) \<and>
   (\<exists>s. exec free_world (Signal # take 5 clean_stop) (init echo_runner False) = Some s \<and>
        pc s = PSelect \<and> 0 < signals s \<and> serve s = Serving \<and>
        step free_world (Select CaseErr) s = None)"
proof -
  obtain s1 where s1: "exec free_world clean_stop (init echo_runner False) = Some s1"
    and r1: "EvRecvSignal \<in> set (trace s1)" "pc s1 = PDone None"
    by (simp add: clean_stop_def free_world_def init_def step_defs echo_runner_def)
  obtain s2 where s2: "exec free_world (take 6 clean_stop) (init echo_runner False) = Some s2"
    and r2: "pc s2 = PParked"
    by (simp add: clean_stop_def free_world_def init_def step_defs echo_runner_def)
  obtain s3 where
    s3: "exec free_world (Signal # take 5 clean_stop) (init echo_runner False) = Some s3"
    and r3: "pc s3 = PSelect" "0 < signals s3" "serve s3 = Serving"
    by (simp add: clean_stop_def free_world_def init_def step_defs echo_runner_def)
  show ?thesis
    using Run_returns_nil_on_received_signal [OF s1]
          Run_returns_nil_on_received_signal [OF s2]
          Run_returns_nil_on_received_signal [OF s3]
          s1 s2 s3 r1 r2 r3
    by auto
qed

text \<open>
  C3 as stated fails: the bind succeeds, a signal arrives, \<open>Serve\<close> fails after it, both
  before \<open>Run\<close> enters the \<open>select\<close>; the \<open>select\<close> may take the serve error, and \<open>Run\<close>
  returns it.
\<close>

theorem signal_then_error_returns_error:
  "final_pc free_world signal_then_error (init echo_runner False) =
     Some (PDone (Some closed_conn)) \<and>
   map_option signal_before_serve_error
     (final_trace free_world signal_then_error (init echo_runner False)) = Some True \<and>
   map_option (bind_succeeded echo_runner)
     (final_trace free_world signal_then_error (init echo_runner False)) = Some True"
  by (simp add: final_pc_def final_trace_def signal_then_error_def free_world_def init_def
        step_defs signal_before_serve_error_def bind_succeeded_def echo_runner_def)


subsection \<open>A failed bind\<close>

lemma not_in_run_events: "is_run_event x \<Longrightarrow> x \<notin> set (run_events tr) \<Longrightarrow> x \<notin> set tr"
  by (simp add: in_run_events)

lemma bind_failed_absent:
  assumes "run_inv w d s" and "net_Listen w (listenAddress d) = Some e"
    and "is_run_event x" and "\<forall>r. x \<noteq> EvListen (listenAddress d) r" and "\<forall>r. x \<noteq> EvReturn r"
  shows "x \<notin> set (trace s)"
proof (rule not_in_run_events [OF assms(3)])
  show "x \<notin> set (run_events (trace s))"
    using bind_failed_shape [OF assms(1,2)] assms(4,5) by auto
qed

text \<open>
  C4. When \<open>net.Listen\<close> fails with \<open>e\<close>, \<open>Run\<close> returns \<open>e\<close> with its first statement;
  in every state of such a run \<open>Run\<close> has emitted nothing, or the failed listen and the
  return: no server is constructed, the registrar is not called, serving is not started,
  \<open>GracefulStop\<close> is not called and \<open>ready\<close> is not closed.
\<close>

theorem Run_bind_failure_returns_at_once:
  assumes "exec w sched (init d rc) = Some s" and "net_Listen w (listenAddress d) = Some e"
  shows "(\<exists>k\<le>1. final_pc w (replicate k Step) s = Some (PDone (Some e))) \<and>
         run_events (trace s) =
           (if pc s = PListen then []
            else [EvListen (listenAddress d) (Some e), EvReturn (Some e)]) \<and>
         (\<forall>opts. EvNewServer opts \<notin> set (trace s)) \<and>
         (\<forall>h. EvRegister h \<notin> set (trace s)) \<and>
         EvServeStart \<notin> set (trace s) \<and>
         EvGracefulStop \<notin> set (trace s) \<and>
         EvReady \<notin> set (trace s)"
proof -
  have inv: "run_inv w d s"
    using assms(1) by (rule run_inv_reachable)
  note sh = bind_failed_shape [OF inv assms(2)]
  have self: "self s = d"
    using inv by (simp add: run_inv_def)
  have ret: "\<exists>k\<le>1. final_pc w (replicate k Step) s = Some (PDone (Some e))"
  proof (cases "pc s = PListen")
    case True
    then have "final_pc w (replicate 1 Step) s = Some (PDone (Some e))"
      using assms(2) self by (simp add: final_pc_def step_def run_step_def emit_def)
    then show ?thesis by blast
  next
    case False
    with sh have "final_pc w (replicate 0 Step) s = Some (PDone (Some e))"
      by (simp add: final_pc_def)
    then show ?thesis by blast
  qed
  have ev: "run_events (trace s) =
           (if pc s = PListen then []
            else [EvListen (listenAddress d) (Some e), EvReturn (Some e)])"
    using sh by auto
  have no: "(\<forall>opts. EvNewServer opts \<notin> set (trace s)) \<and>
         (\<forall>h. EvRegister h \<notin> set (trace s)) \<and>
         EvServeStart \<notin> set (trace s) \<and>
         EvGracefulStop \<notin> set (trace s) \<and>
         EvReady \<notin> set (trace s)"
    by (simp add: bind_failed_absent [OF inv assms(2)])
  from ret ev no show ?thesis
    by (intro conjI) (rule ret, rule ev, simp_all only: no not_False_eq_True simp_thms)
qed


theorem Run_bind_failure_returns_at_once_witness:
  "net_Listen busy_world (listenAddress echo_runner) = Some (Error ''bind: address already in use'') \<and>
   (\<exists>s. exec busy_world [Signal, Step] (init echo_runner False) = Some s \<and>
        pc s = PDone (Some (Error ''bind: address already in use'')) \<and>
        EvReady \<notin> set (trace s) \<and> EvGracefulStop \<notin> set (trace s))"
proof -
  have l: "net_Listen busy_world (listenAddress echo_runner) =
             Some (Error ''bind: address already in use'')"
    by (simp add: busy_world_def)
  obtain s where s: "exec busy_world [Signal, Step] (init echo_runner False) = Some s"
    and r: "pc s = PDone (Some (Error ''bind: address already in use''))"
    by (simp add: busy_world_def init_def step_defs echo_runner_def)
  show ?thesis
    using Run_bind_failure_returns_at_once [OF s l] s r l by blast
qed

subsection \<open>Order of events up to the wait\<close>

lemma reached_wait_rest:
  assumes "run_inv w d s" and "EvWaitBegin \<in> set (trace s)"
  shows "\<exists>rest. run_events (trace s) = upto_wait d @ rest \<and>
           set rest \<subseteq> {EvRecvSignal, EvRecvErr (err s), EvGracefulStop, EvReturn (err s)}"
  using reached_wait_shape [OF assms] by (auto simp add: tail_ok_def)

text \<open>
  C5. In every run that has entered the \<open>select\<close>, the events of \<open>Run\<close> begin with
  the successful listen, the server construction, the registrar call, the \<open>go\<close>
  statement, \<open>close(ready)\<close> and the entry into the \<open>select\<close>, in this order, and none
  of the listen, the registrar call, the \<open>go\<close> statement, \<open>close(ready)\<close> and the entry
  occurs again: \<open>ready\<close> is closed strictly after the first three and strictly before
  the wait.
\<close>

theorem ready_after_serve_start_before_wait:
  assumes "exec w sched (init d rc) = Some s" and "EvWaitBegin \<in> set (trace s)"
  shows "\<exists>rest. run_events (trace s) =
           [EvListen (listenAddress d) None, EvNewServer (server_opts d),
            EvRegister (handler d), EvServeStart, EvReady, EvWaitBegin] @ rest \<and>
           EvReady \<notin> set rest \<and> EvWaitBegin \<notin> set rest \<and> EvServeStart \<notin> set rest \<and>
           EvRegister (handler d) \<notin> set rest \<and> EvListen (listenAddress d) None \<notin> set rest"
proof -
  have inv: "run_inv w d s"
    using assms(1) by (rule run_inv_reachable)
  from reached_wait_rest [OF inv assms(2)] obtain rest
    where r: "run_events (trace s) = upto_wait d @ rest"
      and m: "set rest \<subseteq> {EvRecvSignal, EvRecvErr (err s), EvGracefulStop, EvReturn (err s)}"
    by blast
  have "EvReady \<notin> set rest \<and> EvWaitBegin \<notin> set rest \<and> EvServeStart \<notin> set rest \<and>
        EvRegister (handler d) \<notin> set rest \<and> EvListen (listenAddress d) None \<notin> set rest"
    using m by auto
  with r show ?thesis
    unfolding upto_wait_def by blast
qed

theorem ready_after_serve_start_before_wait_witness:
  "\<exists>s. exec free_world clean_stop (init echo_runner False) = Some s \<and>
       EvWaitBegin \<in> set (trace s) \<and>
       (\<exists>rest. run_events (trace s) =
           [EvListen (listenAddress echo_runner) None, EvNewServer (server_opts echo_runner),
            EvRegister (handler echo_runner), EvServeStart, EvReady, EvWaitBegin] @ rest \<and>
           EvReady \<notin> set rest \<and> EvWaitBegin \<notin> set rest)"
proof -
  obtain s where s: "exec free_world clean_stop (init echo_runner False) = Some s"
    and r: "EvWaitBegin \<in> set (trace s)"
    by (simp add: clean_stop_def free_world_def init_def step_defs echo_runner_def)
  show ?thesis
    using ready_after_serve_start_before_wait [OF s r] s r
    by blast
qed


subsection \<open>Graceful stop\<close>

lemma tail_ok_recv: "tail_ok s x \<Longrightarrow> is_recv x \<and> x \<noteq> EvGracefulStop"
  by (auto simp add: tail_ok_def)

lemma count_upto_wait_stop: "count_list (upto_wait d) EvGracefulStop = 0"
  by (simp add: upto_wait_def)

lemma recv_not_upto_wait: "is_recv x \<Longrightarrow> x \<notin> set (upto_wait d)"
  by (auto simp add: upto_wait_def)

lemma run_events_emit:
  "run_events (trace (emit ev s)) =
     (if is_run_event ev then run_events (trace s) @ [ev] else run_events (trace s))"
  by (simp add: run_events_def emit_def)

text \<open>
  C7. In every run that has entered the \<open>select\<close>, \<open>GracefulStop\<close> has been called at
  most once, and a call comes right after the receive that ended the \<open>select\<close>. Once
  the \<open>select\<close> has ended, by the signal or by the serve result alike, \<open>GracefulStop\<close>
  is called by the next statement of \<open>Run\<close> at the latest, and when \<open>Run\<close> has
  returned it has been called exactly once.
\<close>

theorem GracefulStop_once_after_wait:
  assumes "exec w sched (init d rc) = Some s" and "EvWaitBegin \<in> set (trace s)"
  shows "count_list (trace s) EvGracefulStop \<le> 1 \<and>
         (EvGracefulStop \<in> set (trace s) \<longrightarrow>
            (\<exists>x rest. is_recv x \<and>
               run_events (trace s) = upto_wait d @ x # EvGracefulStop # rest)) \<and>
         (\<forall>x. is_recv x \<and> x \<in> set (trace s) \<longrightarrow>
            (\<exists>k\<le>1. \<exists>s'. exec w (replicate k Step) s = Some s' \<and>
               count_list (trace s') EvGracefulStop = 1 \<and>
               (\<exists>rest. run_events (trace s') = upto_wait d @ x # EvGracefulStop # rest))) \<and>
         (\<forall>r. pc s = PDone r \<longrightarrow> count_list (trace s) EvGracefulStop = 1)"
proof -
  have inv: "run_inv w d s"
    using assms(1) by (rule run_inv_reachable)
  note sh = reached_wait_shape [OF inv assms(2)]
  have c: "count_list (trace s) EvGracefulStop = count_list (run_events (trace s)) EvGracefulStop"
    by (simp add: count_run_events)
  have m: "EvGracefulStop \<in> set (trace s) \<longleftrightarrow> EvGracefulStop \<in> set (run_events (trace s))"
    by (simp add: in_run_events)
  have p1: "count_list (trace s) EvGracefulStop \<le> 1"
    unfolding c using sh by (auto simp add: count_upto_wait_stop dest: tail_ok_recv)
  have p2: "EvGracefulStop \<in> set (trace s) \<longrightarrow>
            (\<exists>x rest. is_recv x \<and>
               run_events (trace s) = upto_wait d @ x # EvGracefulStop # rest)"
    unfolding m using sh by (auto simp add: upto_wait_def dest: tail_ok_recv)
  have p3: "\<exists>k\<le>1. \<exists>s'. exec w (replicate k Step) s = Some s' \<and>
               count_list (trace s') EvGracefulStop = 1 \<and>
               (\<exists>rest. run_events (trace s') = upto_wait d @ x # EvGracefulStop # rest)"
    if x: "is_recv x \<and> x \<in> set (trace s)" for x
  proof -
    from x have xr: "is_recv x" and xm: "x \<in> set (trace s)" by simp_all
    note rs = resolved_shape [OF inv xm xr]
    have ne: "x \<noteq> EvGracefulStop"
      using xr by auto
    consider "pc s = PGracefulStop" "run_events (trace s) = upto_wait d @ [x]"
      | "run_events (trace s) = upto_wait d @ [x, EvGracefulStop]"
      | "run_events (trace s) = upto_wait d @ [x, EvGracefulStop, EvReturn (err s)]"
      using rs by blast
    then show ?thesis
    proof cases
      case 1
      let ?s' = "(emit EvGracefulStop s)\<lparr>pc := PReturn\<rparr>"
      have e: "exec w (replicate 1 Step) s = Some ?s'"
        using 1(1) by (simp add: step_def run_step_def)
      have r: "run_events (trace ?s') = upto_wait d @ x # EvGracefulStop # []"
        using 1(2) by (simp add: run_events_emit)
      have "count_list (run_events (trace ?s')) EvGracefulStop = 1"
        unfolding r using ne by (simp add: count_upto_wait_stop)
      then have "count_list (trace ?s') EvGracefulStop = 1"
        by (simp add: count_run_events)
      with e r show ?thesis
        by (metis le_refl)
    next
      case 2
      have e: "exec w (replicate 0 Step) s = Some s"
        by simp
      have r: "run_events (trace s) = upto_wait d @ x # EvGracefulStop # []"
        using 2 by simp
      have "count_list (run_events (trace s)) EvGracefulStop = 1"
        unfolding r using ne by (simp add: count_upto_wait_stop)
      then have "count_list (trace s) EvGracefulStop = 1"
        by (simp add: count_run_events)
      with e r show ?thesis
        by (metis zero_le)
    next
      case 3
      have e: "exec w (replicate 0 Step) s = Some s"
        by simp
      have r: "run_events (trace s) = upto_wait d @ x # EvGracefulStop # [EvReturn (err s)]"
        using 3 by simp
      have "count_list (run_events (trace s)) EvGracefulStop = 1"
        unfolding r using ne by (simp add: count_upto_wait_stop)
      then have "count_list (trace s) EvGracefulStop = 1"
        by (simp add: count_run_events)
      with e r show ?thesis
        by (metis zero_le)
    qed
  qed
  have p4: "\<forall>r. pc s = PDone r \<longrightarrow> count_list (trace s) EvGracefulStop = 1"
    unfolding c using sh by (auto simp add: count_upto_wait_stop dest: tail_ok_recv)
  from p1 p2 p3 p4 show ?thesis
    by blast
qed

theorem GracefulStop_once_after_wait_witness:
  "(\<exists>s. exec free_world (take 7 clean_stop) (init echo_runner False) = Some s \<and>
        EvWaitBegin \<in> set (trace s) \<and> EvRecvSignal \<in> set (trace s) \<and>
        count_list (trace s) EvGracefulStop \<le> 1) \<and>
   (\<exists>s. exec free_world serve_fails (init echo_runner False) = Some s \<and>
        EvWaitBegin \<in> set (trace s) \<and> EvGracefulStop \<in> set (trace s) \<and>
        pc s = PDone (Some closed_conn) \<and> count_list (trace s) EvGracefulStop = 1)"
proof -
  obtain s1 where s1: "exec free_world (take 7 clean_stop) (init echo_runner False) = Some s1"
    and r1: "EvWaitBegin \<in> set (trace s1)" "EvRecvSignal \<in> set (trace s1)"
    by (simp add: clean_stop_def free_world_def init_def step_defs echo_runner_def)
  obtain s2 where s2: "exec free_world serve_fails (init echo_runner False) = Some s2"
    and r2: "EvWaitBegin \<in> set (trace s2)" "EvGracefulStop \<in> set (trace s2)"
      "pc s2 = PDone (Some closed_conn)"
    by (simp add: serve_fails_def free_world_def init_def step_defs echo_runner_def)
  show ?thesis
    using GracefulStop_once_after_wait [OF s1 r1(1)] GracefulStop_once_after_wait [OF s2 r2(1)]
          s1 s2 r1 r2
    by blast
qed


subsection \<open>Server options\<close>

lemma new_server_in_run:
  assumes "run_inv w d s" and "EvNewServer opts \<in> set (trace s)"
  shows "opts = server_opts d \<and> count_list (trace s) (EvNewServer opts) = 1"
proof -
  from assms(2) have m: "EvNewServer opts \<in> set (run_events (trace s))"
    by (simp add: in_run_events)
  from assms(1) have "pc_inv w d s"
    by (simp add: run_inv_def)
  with m have "opts = server_opts d \<and> count_list (run_events (trace s)) (EvNewServer opts) = 1"
    by (cases "pc s") (auto simp add: pc_inv_def upto_wait_def tail_ok_def)
  then show ?thesis
    by (auto simp add: count_run_events)
qed

text \<open>
  C8. Whenever \<open>Run\<close> constructs the server, it does so once and with these options:
  for a runner whose \<open>tlsConfig\<close> is \<open>c\<close>, exactly the one option \<open>Creds (NewTLS c)\<close> (the
  credentials made from \<open>c\<close>); for a runner whose \<open>tlsConfig\<close> is nil, none. After a
  successful bind the next statement of \<open>Run\<close> is that construction.
\<close>

theorem server_options_follow_tlsConfig:
  assumes "exec w sched (init d rc) = Some s"
  shows "(EvNewServer opts \<in> set (trace s) \<longrightarrow>
            (\<forall>c. tlsConfig d = Some c \<longrightarrow> opts = [Creds (NewTLS c)]) \<and>
            (tlsConfig d = None \<longrightarrow> opts = []) \<and>
            count_list (trace s) (EvNewServer opts) = 1) \<and>
         (pc s = PNewServer \<longrightarrow>
            (\<exists>s'. step w Step s = Some s' \<and>
               trace s' =
                 trace s @
                 [EvNewServer (case tlsConfig d of None \<Rightarrow> [] | Some c \<Rightarrow> [Creds (NewTLS c)])]))"
proof -
  have inv: "run_inv w d s"
    using assms by (rule run_inv_reachable)
  have self: "self s = d"
    using inv by (simp add: run_inv_def)
  have a: "(\<forall>c. tlsConfig d = Some c \<longrightarrow> opts = [Creds (NewTLS c)]) \<and>
           (tlsConfig d = None \<longrightarrow> opts = []) \<and>
           count_list (trace s) (EvNewServer opts) = 1"
    if "EvNewServer opts \<in> set (trace s)"
    using new_server_in_run [OF inv that] by (auto simp add: server_opts_def)
  have b: "\<exists>s'. step w Step s = Some s' \<and>
               trace s' =
                 trace s @
                 [EvNewServer (case tlsConfig d of None \<Rightarrow> [] | Some c \<Rightarrow> [Creds (NewTLS c)])]"
    if "pc s = PNewServer"
    using that self
    by (cases "tlsConfig d") (simp_all add: step_def run_step_def emit_def server_opts_def)
  from a b show ?thesis
    by blast
qed

theorem server_options_follow_tlsConfig_witness:
  "(\<exists>s. exec free_world clean_stop (init echo_runner False) = Some s \<and>
        EvNewServer [Creds (NewTLS (TLSConfig ''server.crt''))] \<in> set (trace s) \<and>
        tlsConfig echo_runner = Some (TLSConfig ''server.crt'')) \<and>
   (\<exists>s. exec free_world clean_stop (init (echo_runner\<lparr>tlsConfig := None\<rparr>) False) = Some s \<and>
        EvNewServer [] \<in> set (trace s) \<and>
        tlsConfig (echo_runner\<lparr>tlsConfig := None\<rparr>) = None) \<and>
   (\<exists>s. exec free_world [Step] (init echo_runner False) = Some s \<and> pc s = PNewServer \<and>
        (\<exists>s'. step free_world Step s = Some s' \<and>
           trace s' = trace s @ [EvNewServer [Creds (NewTLS (TLSConfig ''server.crt''))]]))"
proof -
  obtain s1 where s1: "exec free_world clean_stop (init echo_runner False) = Some s1"
    and r1: "EvNewServer [Creds (NewTLS (TLSConfig ''server.crt''))] \<in> set (trace s1)"
    by (simp add: clean_stop_def free_world_def init_def step_defs echo_runner_def
          server_opts_def)
  obtain s2 where
    s2: "exec free_world clean_stop (init (echo_runner\<lparr>tlsConfig := None\<rparr>) False) = Some s2"
    and r2: "EvNewServer [] \<in> set (trace s2)"
    by (simp add: clean_stop_def free_world_def init_def step_defs echo_runner_def
          server_opts_def)
  obtain s3 where s3: "exec free_world [Step] (init echo_runner False) = Some s3"
    and r3: "pc s3 = PNewServer"
    by (simp add: free_world_def init_def step_defs echo_runner_def)
  have t: "tlsConfig echo_runner = Some (TLSConfig ''server.crt'')"
    "tlsConfig (echo_runner\<lparr>tlsConfig := None\<rparr>) = None"
    by (simp_all add: echo_runner_def)
  show ?thesis
    using server_options_follow_tlsConfig [OF s1, of "[Creds (NewTLS (TLSConfig ''server.crt''))]"]
          server_options_follow_tlsConfig [OF s2, of "[]"]
          server_options_follow_tlsConfig [OF s3, of "[]"]
          s1 s2 s3 r1 r2 r3 t
    by (auto simp add: t)
qed

subsection \<open>The runner is what was given, and stays so\<close>

lemma NewGRPCServer_valid:
  assumes "construction_preconditions h sr"
  shows "NewGRPCServer la tc h sr =
           ([], Inr \<lparr>listenAddress = la, handler = h, serverRegistrar = sr, tlsConfig = tc\<rparr>)"
proof -
  from assms obtain rv hv where v: "sr = Some rv" "h = Some hv"
    by (cases sr; cases h) (auto simp add: precondition_defs)
  from assms v have "length (tin (vtype rv)) = 2"
    by (simp add: precondition_defs)
  then obtain t0 t1 where "tin (vtype rv) = [t0, t1]"
    using length_two_cases by blast
  with assms v show ?thesis
    by (auto simp add: NewGRPCServer_def reflect_defs precondition_defs list_all_iff)
qed

lemma self_exec: "exec w sched s = Some s' \<Longrightarrow> self s' = self s"
proof (induction sched arbitrary: s)
  case Nil
  then show ?case by simp
next
  case (Cons a sched)
  then show ?case
    by (auto split: option.splits dest: self_step)
qed

text \<open>
  C9. For arguments that satisfy the preconditions, \<open>NewGRPCServer\<close> emits no event and
  returns the runner whose four fields are the four arguments, and every state of every
  run of \<open>Run\<close> on that runner still holds the same runner.
\<close>

theorem runner_fields_as_given_and_kept_by_Run:
  assumes "construction_preconditions h sr"
    and "exec w sched
           (init \<lparr>listenAddress = la, handler = h, serverRegistrar = sr, tlsConfig = tc\<rparr> rc) =
         Some s"
  shows "NewGRPCServer la tc h sr =
           ([], Inr \<lparr>listenAddress = la, handler = h, serverRegistrar = sr, tlsConfig = tc\<rparr>) \<and>
         self s = \<lparr>listenAddress = la, handler = h, serverRegistrar = sr, tlsConfig = tc\<rparr>"
  using NewGRPCServer_valid [OF assms(1)] self_exec [OF assms(2)]
  by (simp add: init_def)

theorem runner_fields_as_given_and_kept_by_Run_witness:
  "construction_preconditions (Some echoImpl) (Some RegisterEchoServer) \<and>
   (\<exists>s. exec free_world clean_stop
          (init \<lparr>listenAddress = ''127.0.0.1:50051'', handler = Some echoImpl,
                 serverRegistrar = Some RegisterEchoServer,
                 tlsConfig = Some (TLSConfig ''server.crt'')\<rparr> False) = Some s \<and>
        pc s = PDone None \<and>
        self s = \<lparr>listenAddress = ''127.0.0.1:50051'', handler = Some echoImpl,
                  serverRegistrar = Some RegisterEchoServer,
                  tlsConfig = Some (TLSConfig ''server.crt'')\<rparr>) \<and>
   NewGRPCServer ''127.0.0.1:50051'' (Some (TLSConfig ''server.crt'')) (Some echoImpl)
       (Some RegisterEchoServer) =
     ([], Inr \<lparr>listenAddress = ''127.0.0.1:50051'', handler = Some echoImpl,
               serverRegistrar = Some RegisterEchoServer,
               tlsConfig = Some (TLSConfig ''server.crt'')\<rparr>)"
proof -
  obtain s where s: "exec free_world clean_stop
          (init \<lparr>listenAddress = ''127.0.0.1:50051'', handler = Some echoImpl,
                 serverRegistrar = Some RegisterEchoServer,
                 tlsConfig = Some (TLSConfig ''server.crt'')\<rparr> False) = Some s"
    and r: "pc s = PDone None"
    by (simp add: clean_stop_def free_world_def init_def step_defs)
  show ?thesis
    using runner_fields_as_given_and_kept_by_Run [OF echo_preconditions s] s r echo_preconditions
    by blast
qed

subsection \<open>The race between the signal and the serve result\<close>



























end
